theory Spec2Isabelle
  imports Main "HOL-Library.Word"
begin

section \<open>The Michael-Scott lock-free queue of MichaelScottLockFreeQueue.cpp\<close>

text \<open>
  The development embeds the three types of the source (\<open>NodePointer\<close>, \<open>Node\<close>,
  \<open>Queue\<close>) and the two operations \<open>enqueue\<close> and \<open>dequeue\<close>.

  \<^item> Node addresses are natural numbers; \<open>nullptr\<close> is \<open>None\<close>.
  \<^item> \<open>int count\<close> is a 32-bit word, read as two's complement by \<open>sint\<close>.
    \<open>count + 1\<close> at \<open>INT_MAX\<close> is undefined in C++; the model takes what the
    machine's addition gives, the wrap-around to \<open>INT_MIN\<close>.
  \<^item> The heap is a partial map from addresses to nodes. The address a \<open>new\<close>
    expression returns is an argument of the operation that allocates; it is meant to be
    outside the domain of the heap. Memory is taken to be unbounded.
  \<^item> Dereferencing \<open>nullptr\<close> or a deleted node is an \<open>error\<close> value.
  \<^item> The \<open>while (true)\<close> loops are partial functions: \<open>None\<close> is a loop that
    never exits.
  \<^item> Every access to shared memory (an atomic load, a compare-and-swap, the read of a
    node's value, a \<open>delete\<close>) is preceded by one move of the other threads, taken
    from a schedule that is part of the state. With the empty schedule the calling thread
    runs alone.
  \<^item> Every successful compare-and-swap is appended to a trace of writes.
\<close>

subsection \<open>Tagged pointers and nodes\<close>

type_synonym addr = nat

record NodePointer =
  ptr :: "addr option"
  count :: "32 word"

text \<open>\<open>NodePointer(Node<T>* p, int c) : ptr(p), count(c)\<close>\<close>

definition NodePointer :: "addr option \<Rightarrow> 32 word \<Rightarrow> NodePointer" where
  "NodePointer p c = \<lparr>ptr = p, count = c\<rparr>"

text \<open>
  \<open>NodePointer() : ptr(nullptr)\<close> initialises the pointer only. The count keeps
  whatever the memory held; that indeterminate value is the argument \<open>garbage\<close>.
\<close>

definition NodePointer_default :: "32 word \<Rightarrow> NodePointer" where
  "NodePointer_default garbage = \<lparr>ptr = None, count = garbage\<rparr>"

text \<open>\<open>NodePointer<T>& operator=(Node<T>* p) { ptr = p; return *this; }\<close>\<close>

definition assign_ptr :: "NodePointer \<Rightarrow> addr option \<Rightarrow> NodePointer" where
  "assign_ptr np p = np\<lparr>ptr := p\<rparr>"

text \<open>\<open>operator==\<close>: \<open>a.ptr == b.ptr && a.count == b.count\<close>\<close>

definition np_eq :: "NodePointer \<Rightarrow> NodePointer \<Rightarrow> bool" where
  "np_eq a b = (ptr a = ptr b \<and> count a = count b)"

record 'a Node =
  val :: 'a
  "next" :: NodePointer

text \<open>
  The member \<open>value\<close> is the field \<open>val\<close>.
  \<open>Node(NodePointer<T> np, T val) : next(np), value(val)\<close>
\<close>

definition Node :: "NodePointer \<Rightarrow> 'a \<Rightarrow> 'a Node" where
  "Node np v = \<lparr>val = v, next = np\<rparr>"

text \<open>
  \<open>Node() {}\<close> default-initialises both members: the value is indeterminate and
  \<open>next\<close> is built by \<open>NodePointer()\<close>.
\<close>

definition Node_default :: "'a \<Rightarrow> 32 word \<Rightarrow> 'a Node" where
  "Node_default garbage_val garbage_count =
     \<lparr>val = garbage_val, next = NodePointer_default garbage_count\<rparr>"

subsection \<open>Shared memory, the other threads, the trace of writes\<close>

text \<open>
  \<open>heap\<close> holds the nodes of this queue; \<open>q_head\<close> and \<open>q_tail\<close> are the
  members \<open>_head\<close> and \<open>_tail\<close> of \<open>Queue\<close>.
\<close>

record 'a shared =
  heap :: "addr \<rightharpoonup> 'a Node"
  q_head :: NodePointer
  q_tail :: NodePointer

datatype cell = HeadCell | TailCell | NextCell addr

text \<open>
  \<open>others\<close> is the schedule of the other threads: one entry is what they do to the
  shared memory between two accesses of the calling thread. \<open>writes\<close> records every
  successful compare-and-swap as (cell, value replaced, value stored).
\<close>

record 'a world =
  mem :: "'a shared"
  others :: "('a shared \<Rightarrow> 'a shared) list"
  writes :: "(cell \<times> NodePointer \<times> NodePointer) list"

datatype error = NullDereference | DanglingPointer | DoubleFree

definition alone :: "'a shared \<Rightarrow> 'a world" where
  "alone s = \<lparr>mem = s, others = [], writes = []\<rparr>"

definition interfere :: "'a world \<Rightarrow> 'a world" where
  "interfere w =
     (case others w of
        [] \<Rightarrow> w
      | f # fs \<Rightarrow> w\<lparr>mem := f (mem w), others := fs\<rparr>)"

text \<open>\<open>p->\<close>: the node a pointer refers to.\<close>

definition deref :: "'a shared \<Rightarrow> addr option \<Rightarrow> error + addr \<times> 'a Node" where
  "deref s p =
     (case p of
        None \<Rightarrow> Inl NullDereference
      | Some a \<Rightarrow> (case heap s a of None \<Rightarrow> Inl DanglingPointer | Some n \<Rightarrow> Inr (a, n)))"

text \<open>\<open>_head.load()\<close>, \<open>_tail.load()\<close>, \<open>p->next.load()\<close>, \<open>p->value\<close>\<close>

definition load_head :: "'a world \<Rightarrow> NodePointer \<times> 'a world" where
  "load_head w = (let w' = interfere w in (q_head (mem w'), w'))"

definition load_tail :: "'a world \<Rightarrow> NodePointer \<times> 'a world" where
  "load_tail w = (let w' = interfere w in (q_tail (mem w'), w'))"

definition load_next :: "addr option \<Rightarrow> 'a world \<Rightarrow> error + NodePointer \<times> 'a world" where
  "load_next p w =
     (let w' = interfere w in
      case deref (mem w') p of
        Inl e \<Rightarrow> Inl e
      | Inr (a, n) \<Rightarrow> Inr (next n, w'))"

definition read_value :: "addr option \<Rightarrow> 'a world \<Rightarrow> error + 'a \<times> 'a world" where
  "read_value p w =
     (let w' = interfere w in
      case deref (mem w') p of
        Inl e \<Rightarrow> Inl e
      | Inr (a, n) \<Rightarrow> Inr (val n, w'))"

text \<open>
  \<open>atomic_compare_exchange_strong(&obj, &expected, desired)\<close> on \<open>_head\<close>,
  on \<open>_tail\<close> and on \<open>p->next\<close>. The result is the success flag, the new content of
  \<open>expected\<close> (on failure the value found in the cell) and the world.
\<close>

definition cas_head ::
  "NodePointer \<Rightarrow> NodePointer \<Rightarrow> 'a world \<Rightarrow> bool \<times> NodePointer \<times> 'a world" where
  "cas_head expected desired w =
     (let w' = interfere w; cur = q_head (mem w') in
      if np_eq cur expected
      then (True, expected,
            w'\<lparr>mem := (mem w')\<lparr>q_head := desired\<rparr>,
               writes := writes w' @ [(HeadCell, cur, desired)]\<rparr>)
      else (False, cur, w'))"

definition cas_tail ::
  "NodePointer \<Rightarrow> NodePointer \<Rightarrow> 'a world \<Rightarrow> bool \<times> NodePointer \<times> 'a world" where
  "cas_tail expected desired w =
     (let w' = interfere w; cur = q_tail (mem w') in
      if np_eq cur expected
      then (True, expected,
            w'\<lparr>mem := (mem w')\<lparr>q_tail := desired\<rparr>,
               writes := writes w' @ [(TailCell, cur, desired)]\<rparr>)
      else (False, cur, w'))"

definition cas_next ::
  "addr option \<Rightarrow> NodePointer \<Rightarrow> NodePointer \<Rightarrow> 'a world
     \<Rightarrow> error + bool \<times> NodePointer \<times> 'a world" where
  "cas_next p expected desired w =
     (let w' = interfere w in
      case deref (mem w') p of
        Inl e \<Rightarrow> Inl e
      | Inr (a, n) \<Rightarrow>
          if np_eq (next n) expected
          then Inr (True, expected,
                    w'\<lparr>mem := (mem w')\<lparr>heap := (heap (mem w'))(a \<mapsto> n\<lparr>next := desired\<rparr>)\<rparr>,
                       writes := writes w' @ [(NextCell a, next n, desired)]\<rparr>)
          else Inr (False, next n, w'))"

text \<open>\<open>new Node<T>(...)\<close> at the address \<open>a\<close> the allocator returns.\<close>

definition new_node :: "addr \<Rightarrow> 'a Node \<Rightarrow> 'a shared \<Rightarrow> 'a shared" where
  "new_node a n s = s\<lparr>heap := (heap s)(a \<mapsto> n)\<rparr>"

text \<open>\<open>delete p\<close>: nothing for \<open>nullptr\<close>, an error for a node already deleted.\<close>

definition delete_node :: "addr option \<Rightarrow> 'a world \<Rightarrow> error + 'a world" where
  "delete_node p w =
     (let w' = interfere w in
      case p of
        None \<Rightarrow> Inr w'
      | Some a \<Rightarrow>
          (case heap (mem w') a of
             None \<Rightarrow> Inl DoubleFree
           | Some n \<Rightarrow> Inr (w'\<lparr>mem := (mem w')\<lparr>heap := (heap (mem w'))(a := None)\<rparr>\<rparr>)))"

subsection \<open>The queue\<close>

text \<open>
  \<open>Queue()\<close>: \<open>node = new Node<T>()\<close>, \<open>ptr = NodePointer<T>(node, 0)\<close>,
  \<open>_head.store(ptr)\<close>, \<open>_tail.store(ptr)\<close>. The arguments are the address of the
  new node and the indeterminate content of its two uninitialised fields.
\<close>

definition Queue :: "addr \<Rightarrow> 'a \<Rightarrow> 32 word \<Rightarrow> 'a shared" where
  "Queue node garbage_val garbage_count =
     (let ptr = NodePointer (Some node) 0 in
      \<lparr>heap = [node \<mapsto> Node_default garbage_val garbage_count],
       q_head = ptr, q_tail = ptr\<rparr>)"

text \<open>One turn of a \<open>while (true)\<close> loop leaves the loop, goes round again, or faults.\<close>

datatype ('r, 's) turn = Exit 'r | Again 's | Fault error

text \<open>The body of the loop of \<open>enqueue\<close> (lines 97 to 117); it exits with \<open>tail\<close>.\<close>

definition enqueue_turn :: "addr \<Rightarrow> 'a world \<Rightarrow> (NodePointer \<times> 'a world, 'a world) turn" where
  "enqueue_turn node w =
     (let (tail, w1) = load_tail w in
      case load_next (ptr tail) w1 of
        Inl e \<Rightarrow> Fault e
      | Inr (nxt, w2) \<Rightarrow>
          let (tail', w3) = load_tail w2 in
          if np_eq tail tail' then
            if ptr nxt = None then
              (case cas_next (ptr tail) nxt (NodePointer (Some node) (count nxt + 1)) w3 of
                 Inl e \<Rightarrow> Fault e
               | Inr (ok, nxt', w4) \<Rightarrow> if ok then Exit (tail, w4) else Again w4)
            else
              (let (ok, tail'', w4) = cas_tail tail (NodePointer (ptr nxt) (count tail + 1)) w3
               in Again w4)
          else Again w3)"

partial_function (option) enqueue_loop ::
  "addr \<Rightarrow> 'a world \<Rightarrow> (error + NodePointer \<times> 'a world) option" where
  "enqueue_loop node w =
     (case enqueue_turn node w of
        Fault e \<Rightarrow> Some (Inl e)
      | Exit r \<Rightarrow> Some (Inr r)
      | Again w' \<Rightarrow> enqueue_loop node w')"

declare enqueue_loop.simps [code]

text \<open>
  \<open>enqueue(T val)\<close>: allocate the node with \<open>next = (nullptr, 0)\<close>, run the loop,
  then try once to swing \<open>_tail\<close> to the new node.
\<close>

definition enqueue :: "addr \<Rightarrow> 'a \<Rightarrow> 'a world \<Rightarrow> (error + 'a world) option" where
  "enqueue node v w =
     (let w0 = w\<lparr>mem := new_node node (Node (NodePointer None 0) v) (mem w)\<rparr> in
      case enqueue_loop node w0 of
        None \<Rightarrow> None
      | Some (Inl e) \<Rightarrow> Some (Inl e)
      | Some (Inr (tail, w1)) \<Rightarrow>
          (let (ok, tail', w2) = cas_tail tail (NodePointer (Some node) (count tail + 1)) w1
           in Some (Inr w2)))"

text \<open>
  The body of the loop of \<open>dequeue\<close> (lines 134 to 166). The loop carries the caller's
  variable \<open>result\<close>. It is left by \<open>return false\<close> or by \<open>break\<close> with \<open>head\<close>.
\<close>

datatype 'a dequeue_exit = ReturnFalse 'a "'a world" | Break NodePointer 'a "'a world"

definition dequeue_turn :: "'a \<times> 'a world \<Rightarrow> ('a dequeue_exit, 'a \<times> 'a world) turn" where
  "dequeue_turn rw =
     (let (result, w) = rw;
          (head, w1) = load_head w;
          (tail, w2) = load_tail w1 in
      case load_next (ptr head) w2 of
        Inl e \<Rightarrow> Fault e
      | Inr (nxt, w3) \<Rightarrow>
          let (head', w4) = load_head w3 in
          if np_eq head head' then
            if ptr head = ptr tail then
              if ptr nxt = None then Exit (ReturnFalse result w4)
              else
                (let (ok, tail', w5) = cas_tail tail (NodePointer (ptr nxt) (count tail + 1)) w4
                 in Again (result, w5))
            else
              (case read_value (ptr nxt) w4 of
                 Inl e \<Rightarrow> Fault e
               | Inr (v, w5) \<Rightarrow>
                   let (ok, head'', w6) =
                         cas_head head (NodePointer (ptr nxt) (count head + 1)) w5
                   in if ok then Exit (Break head v w6) else Again (v, w6))
          else Again (result, w4))"

partial_function (option) dequeue_loop ::
  "'a \<times> 'a world \<Rightarrow> (error + 'a dequeue_exit) option" where
  "dequeue_loop rw =
     (case dequeue_turn rw of
        Fault e \<Rightarrow> Some (Inl e)
      | Exit r \<Rightarrow> Some (Inr r)
      | Again rw' \<Rightarrow> dequeue_loop rw')"

declare dequeue_loop.simps [code]

text \<open>
  \<open>bool dequeue(T& result)\<close>: the returned triple is the boolean, the final content of
  \<open>result\<close> and the world. After \<open>break\<close> the old dummy node is deleted.
\<close>

definition dequeue :: "'a \<Rightarrow> 'a world \<Rightarrow> (error + bool \<times> 'a \<times> 'a world) option" where
  "dequeue result w =
     (case dequeue_loop (result, w) of
        None \<Rightarrow> None
      | Some (Inl e) \<Rightarrow> Some (Inl e)
      | Some (Inr (ReturnFalse r w1)) \<Rightarrow> Some (Inr (False, r, w1))
      | Some (Inr (Break head r w1)) \<Rightarrow>
          (case delete_node (ptr head) w1 of
             Inl e \<Rightarrow> Some (Inl e)
           | Inr w2 \<Rightarrow> Some (Inr (True, r, w2))))"

subsection \<open>Callers\<close>

text \<open>\<open>n\<close> calls of \<open>dequeue\<close> in a row on the same variable \<open>result\<close>.\<close>

fun dequeue_times ::
  "nat \<Rightarrow> 'a \<Rightarrow> 'a world \<Rightarrow> (error + bool list \<times> 'a \<times> 'a world) option" where
  "dequeue_times 0 result w = Some (Inr ([], result, w))"
| "dequeue_times (Suc n) result w =
     (case dequeue result w of
        None \<Rightarrow> None
      | Some (Inl e) \<Rightarrow> Some (Inl e)
      | Some (Inr (b, r, w1)) \<Rightarrow>
          (case dequeue_times n r w1 of
             None \<Rightarrow> None
           | Some (Inl e) \<Rightarrow> Some (Inl e)
           | Some (Inr (bs, r', w2)) \<Rightarrow> Some (Inr (b # bs, r', w2))))"



text \<open>
  A whole \<open>dequeue\<close> call of another thread, as one move of the schedule: it runs
  between two accesses of the calling thread.
\<close>

definition other_dequeue :: "'a \<Rightarrow> 'a shared \<Rightarrow> 'a shared" where
  "other_dequeue result s =
     (case dequeue result (alone s) of
        Some (Inr (b, r, w)) \<Rightarrow> mem w
      | _ \<Rightarrow> s)"

text \<open>
  The states a single thread can reach: construction, then calls of \<open>enqueue\<close> (at
  an address that is not allocated) and \<open>dequeue\<close>, each run alone.
\<close>

inductive reachable :: "'a shared \<Rightarrow> bool" where
  init: "reachable (Queue d garbage_val garbage_count)"
| enq: "reachable s \<Longrightarrow> heap s node = None \<Longrightarrow> enqueue node v (alone s) = Some (Inr w)
        \<Longrightarrow> reachable (mem w)"
| deq: "reachable s \<Longrightarrow> dequeue result (alone s) = Some (Inr (b, r, w))
        \<Longrightarrow> reachable (mem w)"

subsection \<open>The list a state represents\<close>

text \<open>
  \<open>linked h nodes\<close>: the nodes are allocated and chained by their \<open>next\<close>
  pointers in this order, and the last one has a null \<open>next\<close>.
\<close>

fun linked :: "(addr \<rightharpoonup> 'a Node) \<Rightarrow> addr list \<Rightarrow> bool" where
  "linked h [] = False"
| "linked h [a] = (case h a of None \<Rightarrow> False | Some n \<Rightarrow> ptr (next n) = None)"
| "linked h (a # b # bs) =
     (case h a of None \<Rightarrow> False | Some n \<Rightarrow> ptr (next n) = Some b \<and> linked h (b # bs))"

text \<open>
  \<open>repr s nodes\<close>: \<open>nodes\<close> is the chain from the dummy node \<open>_head\<close> points to
  down to the last node, without repetition, and \<open>_tail\<close> points into it (it may lag
  behind the last node).
\<close>

definition repr :: "'a shared \<Rightarrow> addr list \<Rightarrow> bool" where
  "repr s nodes =
     (linked (heap s) nodes \<and> distinct nodes \<and>
      ptr (q_head s) = (case nodes of [] \<Rightarrow> None | d # ns \<Rightarrow> Some d) \<and>
      (case ptr (q_tail s) of None \<Rightarrow> False | Some t \<Rightarrow> t \<in> set nodes))"

text \<open>
  The values not yet dequeued, oldest first: those of the nodes after the dummy node.
\<close>

definition pending :: "'a shared \<Rightarrow> addr list \<Rightarrow> 'a list" where
  "pending s nodes =
     concat (map (\<lambda>a. case heap s a of None \<Rightarrow> [] | Some n \<Rightarrow> [val n]) (tl nodes))"

text \<open>
  \<open>settled w nodes xs\<close>: the calling thread runs alone, the state represents
  \<open>nodes\<close>, \<open>_tail\<close> points to the last node, and \<open>xs\<close> are the pending
  values.
\<close>

definition settled :: "'a world \<Rightarrow> addr list \<Rightarrow> 'a list \<Rightarrow> bool" where
  "settled w nodes xs =
     (others w = [] \<and> repr (mem w) nodes \<and> ptr (q_tail (mem w)) = Some (last nodes) \<and>
      pending (mem w) nodes = xs)"

subsection \<open>Properties of the trace of writes\<close>

text \<open>
  Every write of the list stores the count it replaced plus one in 32 bits, which is one
  greater as an \<open>int\<close> when the count replaced is below \<open>INT_MAX\<close>.
\<close>

definition increments :: "(cell \<times> NodePointer \<times> NodePointer) list \<Rightarrow> bool" where
  "increments es =
     (\<forall>(c, old, new) \<in> set es.
        count new = count old + 1 \<and>
        (sint (count old) < 2147483647 \<longrightarrow> sint (count new) = sint (count old) + 1))"

text \<open>\<open>grows w w'\<close>: the trace of \<open>w'\<close> is the trace of \<open>w\<close> and more such writes.\<close>

definition grows :: "'a world \<Rightarrow> 'a world \<Rightarrow> bool" where
  "grows w w' = (\<exists>es. writes w' = writes w @ es \<and> increments es)"

text \<open>
  \<open>generation_after c g es\<close>: the generation of the cell \<open>c\<close> after the writes
  \<open>es\<close>, when it was \<open>g\<close> before them and every write to \<open>c\<close> replaced the
  generation the cell then had by that generation plus one; \<open>None\<close> when some write
  to \<open>c\<close> did not.
\<close>

fun generation_after ::
  "cell \<Rightarrow> 32 word \<Rightarrow> (cell \<times> NodePointer \<times> NodePointer) list \<Rightarrow> 32 word option" where
  "generation_after c g [] = Some g"
| "generation_after c g ((c', old, new) # es) =
     (if c' = c
      then (if count old = g \<and> count new = g + 1 then generation_after c (g + 1) es else None)
      else generation_after c g es)"



subsection \<open>Concrete states\<close>


text \<open>The state after \<open>enqueue(42)\<close> on a fresh queue: one value is pending.\<close>

definition one_pending :: "int shared" where
  "one_pending =
     \<lparr>heap = [0 \<mapsto> Node (NodePointer (Some 1) 1) 0, 1 \<mapsto> Node (NodePointer None 0) 42],
      q_head = NodePointer (Some 0) 0, q_tail = NodePointer (Some 1) 1\<rparr>"


text \<open>
  The calling thread meets \<open>one_pending\<close>. The other threads do nothing (\<open>id\<close>)
  before its five loads (\<open>_head\<close>, \<open>_tail\<close>, \<open>next\<close>, \<open>_head\<close> again,
  the value); before its compare-and-swap on \<open>_head\<close> one of them runs a whole
  \<open>dequeue\<close>.
\<close>

definition racing :: "int world" where
  "racing = \<lparr>mem = one_pending, others = [id, id, id, id, id, other_dequeue 0], writes = []\<rparr>"


section \<open>A thread running alone\<close>

subsection \<open>The accesses without interference\<close>

lemma interfere_alone: "others w = [] \<Longrightarrow> interfere w = w"
  by (simp add: interfere_def)

lemma load_head_alone: "others w = [] \<Longrightarrow> load_head w = (q_head (mem w), w)"
  by (simp add: load_head_def interfere_alone)

lemma load_tail_alone: "others w = [] \<Longrightarrow> load_tail w = (q_tail (mem w), w)"
  by (simp add: load_tail_def interfere_alone)

lemma load_next_alone:
  "others w = [] \<Longrightarrow> heap (mem w) a = Some n \<Longrightarrow> load_next (Some a) w = Inr (next n, w)"
  by (simp add: load_next_def interfere_alone deref_def)

lemma read_value_alone:
  "others w = [] \<Longrightarrow> heap (mem w) a = Some n \<Longrightarrow> read_value (Some a) w = Inr (val n, w)"
  by (simp add: read_value_def interfere_alone deref_def)

lemma cas_head_alone:
  "others w = [] \<Longrightarrow> q_head (mem w) = e \<Longrightarrow> cas_head e d w =
     (True, e,
      w\<lparr>mem := (mem w)\<lparr>q_head := d\<rparr>, writes := writes w @ [(HeadCell, e, d)]\<rparr>)"
  by (auto simp add: cas_head_def interfere_alone np_eq_def Let_def)

lemma cas_tail_alone:
  "others w = [] \<Longrightarrow> q_tail (mem w) = e \<Longrightarrow> cas_tail e d w =
     (True, e,
      w\<lparr>mem := (mem w)\<lparr>q_tail := d\<rparr>, writes := writes w @ [(TailCell, e, d)]\<rparr>)"
  by (auto simp add: cas_tail_def interfere_alone np_eq_def Let_def)

lemma cas_next_alone:
  "others w = [] \<Longrightarrow> heap (mem w) a = Some n \<Longrightarrow>
   next n = e \<Longrightarrow> cas_next (Some a) e d w =
     Inr (True, e,
          w\<lparr>mem := (mem w)\<lparr>heap := (heap (mem w))(a \<mapsto> n\<lparr>next := d\<rparr>)\<rparr>,
            writes := writes w @ [(NextCell a, e, d)]\<rparr>)"
  by (auto simp add: cas_next_def interfere_alone np_eq_def deref_def Let_def)

lemma delete_node_alone:
  "others w = [] \<Longrightarrow> heap (mem w) a = Some n \<Longrightarrow>
   delete_node (Some a) w = Inr (w\<lparr>mem := (mem w)\<lparr>heap := (heap (mem w))(a := None)\<rparr>\<rparr>)"
  by (simp add: delete_node_def interfere_alone)

lemmas alone_simps = load_head_alone load_tail_alone load_next_alone read_value_alone
  cas_head_alone cas_tail_alone cas_next_alone delete_node_alone

subsection \<open>Chains of nodes\<close>

lemma linked_allocated: "linked h ns \<Longrightarrow> a \<in> set ns \<Longrightarrow> \<exists>n. h a = Some n"
  by (induction h ns rule: linked.induct) (auto split: option.splits)

lemma linked_last: "linked h ns \<Longrightarrow> \<exists>n. h (last ns) = Some n \<and> ptr (next n) = None"
  by (induction h ns rule: linked.induct) (auto split: option.splits)

lemma linked_frame: "a \<notin> set ns \<Longrightarrow> linked (h(a := x)) ns = linked h ns"
  by (induction h ns rule: linked.induct) (auto split: option.splits)

lemma linked_snoc:
  assumes "linked h ns" "distinct ns" "node \<notin> set ns" "h (last ns) = Some n"
    "ptr (next m) = None" "ptr p = Some node"
  shows "linked (h(node \<mapsto> m, last ns \<mapsto> n\<lparr>next := p\<rparr>)) (ns @ [node])"
  using assms
proof (induction h ns rule: linked.induct)
  case (1 h)
  then show ?case by simp
next
  case (2 h a)
  then show ?case by simp
next
  case (3 h a b bs)
  then show ?case by (auto split: option.splits)
qed

subsection \<open>The operations on a represented list\<close>

lemma dequeue_empty:
  assumes "others w = []" and "repr (mem w) [d]"
  shows "dequeue r w = Some (Inr (False, r, w))"
proof -
  from assms(2) obtain n where n: "heap (mem w) d = Some n" "ptr (next n) = None"
    and h: "ptr (q_head (mem w)) = Some d" and t: "ptr (q_tail (mem w)) = Some d"
    by (auto simp: repr_def split: option.splits)
  have "dequeue_turn (r, w) = Exit (ReturnFalse r w)"
    using assms(1) n h t by (simp add: dequeue_turn_def alone_simps np_eq_def)
  then show ?thesis
    by (simp add: dequeue_def dequeue_loop.simps)
qed

lemma dequeue_nonempty:
  assumes "others w = []" and "repr (mem w) (d # b # bs)" and "heap (mem w) b = Some nb"
  shows "\<exists>w'. dequeue r w = Some (Inr (True, val nb, w')) \<and> others w' = [] \<and>
           repr (mem w') (b # bs) \<and>
           heap (mem w') = (heap (mem w))(d := None) \<and>
           ptr (q_tail (mem w')) =
             (if ptr (q_tail (mem w)) = Some d then Some b else ptr (q_tail (mem w)))"
proof -
  from assms(2) obtain nd t where nd: "heap (mem w) d = Some nd" "ptr (next nd) = Some b"
    and l: "linked (heap (mem w)) (b # bs)" and dist: "distinct (d # b # bs)"
    and h: "ptr (q_head (mem w)) = Some d"
    and t: "ptr (q_tail (mem w)) = Some t" "t \<in> set (d # b # bs)"
    by (auto simp: repr_def split: option.splits)
  have db: "d \<noteq> b" and dbs: "d \<notin> set (b # bs)" using dist by auto
  have l': "linked ((heap (mem w))(d := None)) (b # bs)"
    using l linked_frame[OF dbs] by blast
  show ?thesis
  proof (cases "t = d")
    case True
    let ?w1 = "w\<lparr>mem := (mem w)\<lparr>q_tail := NodePointer (Some b) (count (q_tail (mem w)) + 1)\<rparr>,
                 writes := writes w @ [(TailCell, q_tail (mem w),
                    NodePointer (Some b) (count (q_tail (mem w)) + 1))]\<rparr>"
    have t1: "dequeue_turn (r, w) = Again (r, ?w1)"
      using assms(1) nd h t True
      by (simp add: dequeue_turn_def alone_simps np_eq_def)
    let ?w2 = "?w1\<lparr>mem := (mem ?w1)\<lparr>q_head := NodePointer (Some b) (count (q_head (mem w)) + 1)\<rparr>,
                 writes := writes ?w1 @ [(HeadCell, q_head (mem w),
                    NodePointer (Some b) (count (q_head (mem w)) + 1))]\<rparr>"
    have t2: "dequeue_turn (r, ?w1) = Exit (Break (q_head (mem w)) (val nb) ?w2)"
      using assms(1,3) nd h db
      by (simp add: dequeue_turn_def alone_simps np_eq_def NodePointer_def)
    have "dequeue_loop (r, w) = Some (Inr (Break (q_head (mem w)) (val nb) ?w2))"
      by (subst dequeue_loop.simps, simp only: t1 turn.case,
          subst dequeue_loop.simps, simp only: t2 turn.case)
    then show ?thesis
      using assms(1) nd h l' dist True t
      by (simp add: dequeue_def alone_simps repr_def NodePointer_def)
  next
    case False
    let ?w2 = "w\<lparr>mem := (mem w)\<lparr>q_head := NodePointer (Some b) (count (q_head (mem w)) + 1)\<rparr>,
                 writes := writes w @ [(HeadCell, q_head (mem w),
                    NodePointer (Some b) (count (q_head (mem w)) + 1))]\<rparr>"
    have t2: "dequeue_turn (r, w) = Exit (Break (q_head (mem w)) (val nb) ?w2)"
      using assms(1,3) nd h t False
      by (simp add: dequeue_turn_def alone_simps np_eq_def)
    have "dequeue_loop (r, w) = Some (Inr (Break (q_head (mem w)) (val nb) ?w2))"
      by (subst dequeue_loop.simps, simp only: t2 turn.case)
    then show ?thesis
      using assms(1) nd h l' dist False t
      by (auto simp add: dequeue_def alone_simps repr_def NodePointer_def)
  qed
qed

lemma enqueue_quiescent:
  assumes "others w = []" and "repr (mem w) ns" and "ptr (q_tail (mem w)) = Some (last ns)"
    and "heap (mem w) node = None"
  shows "\<exists>w'. enqueue node v w = Some (Inr w') \<and> others w' = [] \<and>
           repr (mem w') (ns @ [node]) \<and> ptr (q_tail (mem w')) = Some node \<and>
           dom (heap (mem w')) = insert node (dom (heap (mem w))) \<and>
           pending (mem w') (ns @ [node]) = pending (mem w) ns @ [v]"
proof -
  from assms(2) have l: "linked (heap (mem w)) ns" and dist: "distinct ns"
    and h: "ptr (q_head (mem w)) = (case ns of [] \<Rightarrow> None | d # ns \<Rightarrow> Some d)"
    by (auto simp: repr_def)
  from l have ne: "ns \<noteq> []" by auto
  from linked_last[OF l] obtain n where n: "heap (mem w) (last ns) = Some n" "ptr (next n) = None"
    by blast
  have fresh: "node \<notin> set ns"
    using linked_allocated[OF l] assms(4) by fastforce
  then have neq: "node \<noteq> last ns" using ne by auto
  let ?w0 = "w\<lparr>mem := new_node node (Node (NodePointer None 0) v) (mem w)\<rparr>"
  let ?p = "NodePointer (Some node) (count (next n) + 1)"
  let ?h1 = "(heap (mem w))(node \<mapsto> Node (NodePointer None 0) v, last ns \<mapsto> n\<lparr>next := ?p\<rparr>)"
  let ?w1 = "?w0\<lparr>mem := (mem ?w0)\<lparr>heap := ?h1\<rparr>,
                writes := writes w @ [(NextCell (last ns), next n, ?p)]\<rparr>"
  have t1: "enqueue_turn node ?w0 = Exit (q_tail (mem w), ?w1)"
    using assms(1,3) n neq
    by (simp add: enqueue_turn_def alone_simps np_eq_def new_node_def)
  have loop: "enqueue_loop node ?w0 = Some (Inr (q_tail (mem w), ?w1))"
    by (subst enqueue_loop.simps, simp only: t1 turn.case)
  have l1: "linked ?h1 (ns @ [node])"
    by (rule linked_snoc[OF l dist fresh n(1)]) (simp_all add: Node_def NodePointer_def)
  have vals: "a \<in> set (tl ns) \<Longrightarrow> (case ?h1 a of None \<Rightarrow> [] | Some n \<Rightarrow> [val n]) =
        (case heap (mem w) a of None \<Rightarrow> [] | Some n \<Rightarrow> [val n])" for a
    using fresh n(1) by (auto dest: list.set_sel(2)[OF ne])
  let ?t = "NodePointer (Some node) (count (q_tail (mem w)) + 1)"
  let ?w2 = "?w1\<lparr>mem := (mem ?w1)\<lparr>q_tail := ?t\<rparr>,
                writes := writes ?w1 @ [(TailCell, q_tail (mem w), ?t)]\<rparr>"
  have res: "enqueue node v w = Some (Inr ?w2)"
    unfolding enqueue_def Let_def loop using assms(1)
    by (simp add: alone_simps new_node_def)
  have "repr (mem ?w2) (ns @ [node])"
    using l1 dist fresh h ne
    by (auto simp add: repr_def NodePointer_def new_node_def split: list.splits)
  moreover have "pending (mem ?w2) (ns @ [node]) = pending (mem w) ns @ [v]"
    using ne vals fresh neq by (simp add: pending_def new_node_def Node_def cong: map_cong)
  moreover have "dom (heap (mem ?w2)) = insert node (dom (heap (mem w)))"
    using n(1) by (auto simp add: new_node_def)
  ultimately show ?thesis
    using assms(1) by (simp add: res NodePointer_def)
qed

subsection \<open>The generation counter in 32 bits\<close>


subsection \<open>The trace of writes\<close>

lemma grows_refl: "grows w w"
  by (simp add: grows_def increments_def)

















subsection \<open>The generations of \<open>_head\<close> and \<open>_tail\<close>, for a thread running alone\<close>


lemma generation_after_length:
  "generation_after c g es = Some g' \<Longrightarrow> g' = g + of_nat (length (filter (\<lambda>e. fst e = c) es))"
  by (induction c g es rule: generation_after.induct) (auto split: if_splits)
















subsection \<open>A call that reports the queue empty\<close>

lemma dequeue_turn_alone:
  assumes "others w = []"
  shows "dequeue_turn (r, w) =
     (case deref (mem w) (ptr (q_head (mem w))) of
        Inl e \<Rightarrow> Fault e
      | Inr (a, n) \<Rightarrow>
          if ptr (q_head (mem w)) = ptr (q_tail (mem w)) then
            if ptr (next n) = None then Exit (ReturnFalse r w)
            else Again (r, snd (snd (cas_tail (q_tail (mem w))
                     (NodePointer (ptr (next n)) (count (q_tail (mem w)) + 1)) w)))
          else
            (case deref (mem w) (ptr (next n)) of
               Inl e \<Rightarrow> Fault e
             | Inr (b, nb) \<Rightarrow>
                 Exit (Break (q_head (mem w)) (val nb)
                   (snd (snd (cas_head (q_head (mem w))
                     (NodePointer (ptr (next n)) (count (q_head (mem w)) + 1)) w))))))"
  using assms
  by (simp add: dequeue_turn_def load_head_def load_tail_def load_next_def read_value_def
      interfere_alone Let_def np_eq_def cas_head_alone cas_tail_alone
      split: sum.splits prod.splits)

lemma dequeue_turn_false_alone:
  "others w = [] \<Longrightarrow> dequeue_turn (r, w) = Exit (ReturnFalse r' w') \<Longrightarrow> r' = r \<and> w' = w"
  by (simp add: dequeue_turn_alone split: sum.splits prod.splits if_splits)

lemma dequeue_turn_false_iff:
  "others w = [] \<Longrightarrow> dequeue_turn (r, w) = Exit (ReturnFalse r w) \<longleftrightarrow>
     dequeue_turn (r2, w) = Exit (ReturnFalse r2 w)"
  by (simp add: dequeue_turn_alone split: sum.splits prod.splits if_splits)

lemma deref_frame:
  "deref (s\<lparr>q_tail := t\<rparr>) p = deref s p" "deref (s\<lparr>q_head := h\<rparr>) p = deref s p"
  by (simp_all add: deref_def cong: option.case_cong)

lemma dequeue_turn_again_alone:
  assumes "others w = []" and "dequeue_turn (r, w) = Again (r1, w1)"
  shows "others w1 = [] \<and> dequeue_turn (r1, w1) \<noteq> Exit (ReturnFalse r' w')"
proof -
  from assms obtain a n where d: "deref (mem w) (ptr (q_head (mem w))) = Inr (a, n)"
    and p: "ptr (q_head (mem w)) = ptr (q_tail (mem w))" "ptr (next n) \<noteq> None"
    and w1: "w1 = w\<lparr>mem := (mem w)\<lparr>q_tail := NodePointer (ptr (next n)) (count (q_tail (mem w)) + 1)\<rparr>,
        writes := writes w @ [(TailCell, q_tail (mem w),
             NodePointer (ptr (next n)) (count (q_tail (mem w)) + 1))]\<rparr>"
    by (auto simp add: dequeue_turn_alone cas_tail_alone split: sum.splits prod.splits if_splits)
  have o: "others w1 = []" using assms(1) w1 by simp
  have d1: "deref (mem w1) (ptr (q_head (mem w1))) = Inr (a, n)"
    using d w1 by (simp add: deref_frame)
  show ?thesis
    using o p(2) by (auto simp add: dequeue_turn_alone[OF o] d1 split: sum.splits)
qed

lemma dequeue_loop_false_alone:
  fixes w :: "'a world"
  assumes "dequeue_loop (r, w) = Some (Inr (ReturnFalse r' w'))" and "others w = []"
  shows "dequeue_turn (r, w) = Exit (ReturnFalse r' w')"
proof -
  have "others (snd rw) = [] \<longrightarrow> (\<forall>r' w'. y = Inr (ReturnFalse r' w') \<longrightarrow>
          dequeue_turn rw = Exit (ReturnFalse r' w'))"
    if "dequeue_loop rw = Some y" for rw :: "'a \<times> 'a world" and y
  proof (rule dequeue_loop.raw_induct[where
        P = "\<lambda>rw y. others (snd rw) = [] \<longrightarrow> (\<forall>r' w'. y = Inr (ReturnFalse r' w') \<longrightarrow>
          dequeue_turn rw = Exit (ReturnFalse r' w'))", OF _ that])
    fix loop :: "'a \<times> 'a world \<Rightarrow> (error + 'a dequeue_exit) option" and rw y
    assume IH: "\<And>rw y. loop rw = Some y \<Longrightarrow> others (snd rw) = [] \<longrightarrow>
          (\<forall>r' w'. y = Inr (ReturnFalse r' w') \<longrightarrow> dequeue_turn rw = Exit (ReturnFalse r' w'))"
      and step: "(case dequeue_turn rw of Exit r \<Rightarrow> Some (Inr r)
          | Again rw' \<Rightarrow> loop rw' | Fault e \<Rightarrow> Some (Inl e)) = Some y"
    obtain r w where rw: "rw = (r, w)" by (cases rw)
    show "others (snd rw) = [] \<longrightarrow> (\<forall>r' w'. y = Inr (ReturnFalse r' w') \<longrightarrow>
          dequeue_turn rw = Exit (ReturnFalse r' w'))"
    proof (cases "dequeue_turn rw")
      case (Exit e)
      with step show ?thesis by auto
    next
      case (Again rw1)
      obtain r1 w1 where rw1: "rw1 = (r1, w1)" by (cases rw1)
      show ?thesis
      proof (intro impI allI)
        fix r' w'
        assume alone: "others (snd rw) = []" and y: "y = Inr (ReturnFalse r' w')"
        have a: "others w1 = []" "dequeue_turn (r1, w1) \<noteq> Exit (ReturnFalse r' w')"
          using dequeue_turn_again_alone[of w r r1 w1 r' w'] alone Again rw rw1 by auto
        have "loop rw1 = Some y" using step Again by simp
        from IH[OF this] a(1) y rw1 have "dequeue_turn (r1, w1) = Exit (ReturnFalse r' w')"
          by simp
        with a(2) show "dequeue_turn rw = Exit (ReturnFalse r' w')" by contradiction
      qed
    next
      case (Fault e)
      with step show ?thesis by auto
    qed
  qed
  from this[OF assms(1)] assms(2) show ?thesis by simp
qed

lemma dequeue_false_alone:
  assumes "others w = []" and "dequeue r w = Some (Inr (False, r', w'))"
  shows "r' = r \<and> w' = w \<and> dequeue r2 w = Some (Inr (False, r2, w))"
proof -
  from assms(2) have "dequeue_loop (r, w) = Some (Inr (ReturnFalse r' w'))"
    by (auto simp: dequeue_def split: option.splits sum.splits dequeue_exit.splits)
  then have t: "dequeue_turn (r, w) = Exit (ReturnFalse r' w')"
    using assms(1) by (rule dequeue_loop_false_alone)
  then have eq: "r' = r \<and> w' = w"
    using assms(1) by (rule dequeue_turn_false_alone[rotated])
  with t have "dequeue_turn (r2, w) = Exit (ReturnFalse r2 w)"
    using dequeue_turn_false_iff[OF assms(1), of r r2] by simp
  then have "dequeue r2 w = Some (Inr (False, r2, w))"
    by (simp add: dequeue_def dequeue_loop.simps[of "(r2, w)"])
  with eq show ?thesis by simp
qed

lemma dequeue_times_empty:
  "dequeue r w = Some (Inr (False, r, w)) \<Longrightarrow> (\<And>r2. dequeue r2 w = Some (Inr (False, r2, w)))
   \<Longrightarrow> dequeue_times n r w = Some (Inr (replicate n False, r, w))"
  by (induction n) simp_all

subsection \<open>Pending values\<close>

lemma pending_Cons:
  "heap s b = Some nb \<Longrightarrow> pending s (d # b # bs) = val nb # pending s (b # bs)"
  by (simp add: pending_def)

lemma pending_frame:
  assumes "heap s' = (heap s)(d := x)" and "d \<notin> set (tl ns)"
  shows "pending s' ns = pending s ns"
proof -
  have "heap s' a = heap s a" if "a \<in> set (tl ns)" for a
    using assms that by auto
  then show ?thesis
    by (simp add: pending_def cong: map_cong)
qed

lemma pending_single: "pending s [d] = []"
  by (simp add: pending_def)

lemma repr_nonempty: "repr s ns \<Longrightarrow> ns \<noteq> []"
  by (auto simp: repr_def)

lemma dequeue_repr:
  assumes "others w = []" and "repr (mem w) nodes"
  shows "case pending (mem w) nodes of
           [] \<Rightarrow> dequeue r w = Some (Inr (False, r, w))
         | x # xs \<Rightarrow>
             \<exists>w'. dequeue r w = Some (Inr (True, x, w')) \<and> others w' = [] \<and>
                  repr (mem w') (tl nodes) \<and> pending (mem w') (tl nodes) = xs \<and>
                  heap (mem w') = (heap (mem w))(hd nodes := None) \<and>
                  (ptr (q_tail (mem w)) = Some (last nodes)
                     \<longrightarrow> ptr (q_tail (mem w')) = Some (last (tl nodes)))"
proof (cases nodes)
  case Nil
  with assms(2) show ?thesis by (simp add: repr_def)
next
  case (Cons d ns)
  show ?thesis
  proof (cases ns)
    case Nil
    with Cons assms show ?thesis by (simp add: pending_single dequeue_empty)
  next
    case (Cons b bs)
    with \<open>nodes = d # ns\<close> have nodes: "nodes = d # b # bs" by simp
    from assms(2) nodes have l: "linked (heap (mem w)) (d # b # bs)" and dist: "distinct (d # b # bs)"
      by (simp_all add: repr_def)
    from linked_allocated[OF l, of b] obtain nb where nb: "heap (mem w) b = Some nb" by auto
    from dequeue_nonempty[OF assms(1) assms(2)[unfolded nodes] nb, of r]
    obtain w' where w': "dequeue r w = Some (Inr (True, val nb, w'))" "others w' = []"
        "repr (mem w') (b # bs)" "heap (mem w') = (heap (mem w))(d := None)"
        "ptr (q_tail (mem w')) =
           (if ptr (q_tail (mem w)) = Some d then Some b else ptr (q_tail (mem w)))"
      by blast
    have p: "pending (mem w') (b # bs) = pending (mem w) (b # bs)"
      using w'(4) dist by (intro pending_frame[where d = d and x = None]) simp_all
    have t: "ptr (q_tail (mem w)) = Some (last nodes) \<longrightarrow> ptr (q_tail (mem w')) = Some (last (tl nodes))"
      using w'(5) dist nodes by auto
    show ?thesis
      using w' p t nodes by (simp add: pending_Cons[OF nb])
  qed
qed

lemma pending_empty: "repr s nodes \<Longrightarrow> pending s nodes = [] \<Longrightarrow> \<exists>d. nodes = [d]"
proof (cases nodes)
  case Nil
  assume "repr s nodes" with Nil show ?thesis by (simp add: repr_def)
next
  case (Cons d ns)
  assume r: "repr s nodes" and p: "pending s nodes = []"
  show ?thesis
  proof (cases ns)
    case Nil
    with Cons show ?thesis by simp
  next
    case (Cons b bs)
    with \<open>nodes = d # ns\<close> r have "linked (heap s) (d # b # bs)" by (simp add: repr_def)
    from linked_allocated[OF this, of b] obtain nb where "heap s b = Some nb" by auto
    with p Cons \<open>nodes = d # ns\<close> show ?thesis by (simp add: pending_Cons)
  qed
qed

subsection \<open>The fresh queue and settled states\<close>

lemma Queue_eq:
  "Queue d gv gc =
     \<lparr>heap = [d \<mapsto> \<lparr>val = gv, next = \<lparr>ptr = None, count = gc\<rparr>\<rparr>],
      q_head = \<lparr>ptr = Some d, count = 0\<rparr>, q_tail = \<lparr>ptr = Some d, count = 0\<rparr>\<rparr>"
  by (simp add: Queue_def Let_def Node_default_def NodePointer_default_def NodePointer_def)

lemma repr_Queue: "repr (Queue d gv gc) [d]"
  by (simp add: repr_def Queue_eq)

lemma others_alone: "others (alone s) = []"
  by (simp add: alone_def)

lemma settled_Queue: "settled (alone (Queue d gv gc)) [d] []"
  by (simp add: settled_def alone_def repr_Queue pending_single) (simp add: Queue_eq)

lemma settled_alone: "settled w ns xs \<Longrightarrow> settled (alone (mem w)) ns xs"
  by (simp add: settled_def alone_def)

lemma enqueue_settled:
  assumes "settled w ns xs" and "heap (mem w) node = None"
  shows "\<exists>w'. enqueue node v w = Some (Inr w') \<and> settled w' (ns @ [node]) (xs @ [v]) \<and>
           dom (heap (mem w')) = insert node (dom (heap (mem w)))"
  using enqueue_quiescent[of w ns node v] assms
  by (auto simp: settled_def)

lemma dequeue_settled_empty:
  assumes "settled w ns []"
  shows "dequeue r w = Some (Inr (False, r, w))"
  using dequeue_repr[of w ns r] assms by (simp add: settled_def)

lemma dequeue_settled_nonempty:
  assumes "settled w (d # ns) (x # xs)"
  shows "\<exists>w'. dequeue r w = Some (Inr (True, x, w')) \<and> settled w' ns xs \<and>
           heap (mem w') = (heap (mem w))(d := None)"
  using dequeue_repr[of w "d # ns" r] assms by (auto simp: settled_def)

text \<open>Every state a single thread can reach is settled.\<close>

lemma reachable_settled: "reachable s \<Longrightarrow> \<exists>ns xs. settled (alone s) ns xs"
proof (induction rule: reachable.induct)
  case (init d gv gc)
  show ?case by (intro exI) (rule settled_Queue)
next
  case (enq s node v w)
  then obtain ns xs where st: "settled (alone s) ns xs" by blast
  from enq.hyps(2) have "heap (mem (alone s)) node = None" by (simp add: alone_def)
  from enqueue_settled[OF st this, of v] enq.hyps(3)
  have "settled w (ns @ [node]) (xs @ [v])" by auto
  then show ?case by (blast intro: settled_alone)
next
  case (deq s r b r' w)
  then obtain ns xs where st: "settled (alone s) ns xs" by blast
  show ?case
  proof (cases xs)
    case Nil
    with st dequeue_settled_empty[of "alone s" ns r] deq.hyps(2)
    have "w = alone s" by simp
    with st show ?thesis by (auto simp: alone_def)
  next
    case (Cons x xs')
    from st have "ns \<noteq> []" by (auto simp: settled_def dest: repr_nonempty)
    then obtain d ns' where ns: "ns = d # ns'" by (cases ns) auto
    from dequeue_settled_nonempty[of "alone s" d ns' x xs' r] st Cons ns deq.hyps(2)
    have "settled w ns' xs'" by auto
    then show ?thesis by (blast intro: settled_alone)
  qed
qed

subsection \<open>Concrete states\<close>

lemmas run_defs = enqueue_def enqueue_turn_def dequeue_def dequeue_turn_def
  load_head_def load_tail_def load_next_def read_value_def cas_head_def cas_tail_def
  cas_next_def delete_node_def new_node_def interfere_def deref_def np_eq_def
  NodePointer_def Node_def alone_def Let_def

lemma repr_one_pending: "repr one_pending [0, 1]"
  by (simp add: repr_def one_pending_def Node_def NodePointer_def)

lemma pending_one_pending: "pending one_pending [0, 1] = [42]"
  by (simp add: pending_def one_pending_def Node_def NodePointer_def)



lemma reachable_one_pending: "reachable one_pending"
proof -
  have "\<exists>w. enqueue 1 42 (alone (Queue 0 (0::int) 0)) = Some (Inr w) \<and> mem w = one_pending"
    by (auto simp add: run_defs Queue_eq one_pending_def enqueue_loop.simps fun_upd_twist)
  then obtain w where w: "enqueue 1 42 (alone (Queue 0 (0::int) 0)) = Some (Inr w)"
    and m: "mem w = one_pending" by blast
  have "heap (Queue 0 (0::int) 0) 1 = None" by (simp add: Queue_eq)
  from reachable.enq[OF reachable.init this w] m show ?thesis by simp
qed


subsection \<open>Every counter value is reached\<close>




section \<open>The properties of the specification\<close>

text \<open>
  C1: first in, first out under sequential use. On a fresh queue, whatever distinct
  addresses the allocator returns, \<open>enqueue(1); enqueue(2); enqueue(3)\<close> followed by
  four calls of \<open>dequeue\<close> yields 1, 2, 3 and then reports the queue empty. All seven
  calls return.
\<close>

theorem fifo_three:
  assumes "distinct [d, a1, a2, a3]"
  shows "\<exists>w1 w2 w3 w4 w5 w6.
           enqueue a1 1 (alone (Queue d garbage_val garbage_count)) = Some (Inr w1) \<and>
           enqueue a2 2 w1 = Some (Inr w2) \<and>
           enqueue a3 3 w2 = Some (Inr w3) \<and>
           dequeue result w3 = Some (Inr (True, 1::int, w4)) \<and>
           dequeue 1 w4 = Some (Inr (True, 2, w5)) \<and>
           dequeue 2 w5 = Some (Inr (True, 3, w6)) \<and>
           dequeue 3 w6 = Some (Inr (False, 3, w6))"
proof -
  let ?w0 = "alone (Queue d garbage_val garbage_count) :: int world"
  have s0: "settled ?w0 [d] []" by (rule settled_Queue)
  have d0: "dom (heap (mem ?w0)) = {d}" by (simp add: alone_def Queue_eq)
  have "heap (mem ?w0) a1 = None" using d0 assms by (auto simp: domIff)
  from enqueue_settled[OF s0 this, of 1] d0
  obtain w1 where w1: "enqueue a1 1 ?w0 = Some (Inr w1)" "settled w1 [d, a1] [1]"
    "dom (heap (mem w1)) = {a1, d}" by auto
  have "heap (mem w1) a2 = None" using w1(3) assms by (auto simp: domIff)
  from enqueue_settled[OF w1(2) this, of 2] w1(3)
  obtain w2 where w2: "enqueue a2 2 w1 = Some (Inr w2)" "settled w2 [d, a1, a2] [1, 2]"
    "dom (heap (mem w2)) = {a2, a1, d}" by auto
  have "heap (mem w2) a3 = None" using w2(3) assms by (auto simp: domIff)
  from enqueue_settled[OF w2(2) this, of 3]
  obtain w3 where w3: "enqueue a3 3 w2 = Some (Inr w3)" "settled w3 [d, a1, a2, a3] [1, 2, 3]"
    by auto
  from dequeue_settled_nonempty[OF w3(2), of result]
  obtain w4 where w4: "dequeue result w3 = Some (Inr (True, 1, w4))" "settled w4 [a1, a2, a3] [2, 3]"
    by auto
  from dequeue_settled_nonempty[OF w4(2), of 1]
  obtain w5 where w5: "dequeue 1 w4 = Some (Inr (True, 2, w5))" "settled w5 [a2, a3] [3]"
    by auto
  from dequeue_settled_nonempty[OF w5(2), of 2]
  obtain w6 where w6: "dequeue 2 w5 = Some (Inr (True, 3, w6))" "settled w6 [a3] []"
    by auto
  have "dequeue 3 w6 = Some (Inr (False, 3, w6))"
    using w6(2) by (rule dequeue_settled_empty)
  with w1(1) w2(1) w3(1) w4(1) w5(1) w6(1) show ?thesis by blast
qed

theorem fifo_three_witness:
  "distinct [0::addr, 1, 2, 3] \<and>
   (\<exists>w1 w2 w3 w4 w5 w6.
           enqueue 1 1 (alone (Queue 0 0 0)) = Some (Inr w1) \<and>
           enqueue 2 2 w1 = Some (Inr w2) \<and>
           enqueue 3 3 w2 = Some (Inr w3) \<and>
           dequeue 0 w3 = Some (Inr (True, 1::int, w4)) \<and>
           dequeue 1 w4 = Some (Inr (True, 2, w5)) \<and>
           dequeue 2 w5 = Some (Inr (True, 3, w6)) \<and>
           dequeue 3 w6 = Some (Inr (False, 3, w6)))"
proof -
  have d: "distinct [0::addr, 1, 2, 3]" by simp
  show ?thesis using d fifo_three[OF d, of 0 0 0] by simp
qed




text \<open>
  C3: round trip. In every state a single thread can reach from a fresh queue and in
  which no value is pending, \<open>enqueue(v)\<close> at an unallocated address followed by
  \<open>dequeue\<close> succeeds and yields \<open>v\<close>.
\<close>

theorem round_trip:
  assumes "reachable s" and "repr s nodes" and "pending s nodes = []"
    and "heap s node = None"
  shows "\<exists>w w'. enqueue node v (alone s) = Some (Inr w) \<and>
           dequeue result w = Some (Inr (True, v, w'))"
proof -
  from pending_empty[OF assms(2,3)] obtain d where d: "nodes = [d]" by blast
  with assms(2) have "ptr (q_tail s) = Some d"
    by (auto simp: repr_def split: option.splits)
  with assms(2,3) d have st: "settled (alone s) [d] []"
    by (simp add: settled_def alone_def)
  have "heap (mem (alone s)) node = None" using assms(4) by (simp add: alone_def)
  from enqueue_settled[OF st this, of v]
  obtain w where w: "enqueue node v (alone s) = Some (Inr w)" "settled w [d, node] [v]"
    by auto
  from dequeue_settled_nonempty[OF w(2), of result] w(1) show ?thesis by blast
qed

theorem round_trip_witness:
  "reachable (Queue 0 (0::int) 0) \<and> repr (Queue 0 (0::int) 0) [0] \<and>
   pending (Queue 0 (0::int) 0) [0] = [] \<and> heap (Queue 0 (0::int) 0) 1 = None \<and>
   (\<exists>w w'. enqueue 1 5 (alone (Queue 0 (0::int) 0)) = Some (Inr w) \<and>
      dequeue 7 w = Some (Inr (True, 5, w')))"
proof -
  have a: "reachable (Queue 0 (0::int) 0)" by (rule reachable.init)
  have b: "repr (Queue 0 (0::int) 0) [0]" by (rule repr_Queue)
  have c: "pending (Queue 0 (0::int) 0) [0] = []" by (rule pending_single)
  have d: "heap (Queue 0 (0::int) 0) 1 = None" by (simp add: Queue_eq)
  show ?thesis using a b c d round_trip[OF a b c d, of 5 7] by simp
qed

text \<open>
  C5 at a failing input. \<open>Node()\<close> builds \<open>next\<close> with \<open>NodePointer()\<close>, which
  initialises \<open>ptr\<close> only, so the count of the dummy node's \<open>next\<close> is whatever
  the memory held. When the memory of the new node holds 7 there, the dummy node's
  \<open>next\<close> is (null, 7) and not (null, 0).
\<close>

theorem construction_leaves_count_uninitialised:
  "map_option next (heap (Queue 0 (0::int) 7) 0) = Some (NodePointer None 7) \<and>
   map_option next (heap (Queue 0 (0::int) 7) 0) \<noteq> Some (NodePointer None 0)"
  by (simp add: Queue_eq NodePointer_def)

text \<open>
  The rest of the postcondition holds: \<open>Queue()\<close> allocates exactly one node, the
  dummy node, with a null \<open>next\<close> pointer, and sets \<open>_head\<close> and \<open>_tail\<close> to
  (dummy node, 0).
\<close>

lemma construction_postcondition:
  "dom (heap (Queue d garbage_val garbage_count)) = {d} \<and>
   map_option next (heap (Queue d garbage_val garbage_count) d)
     = Some (NodePointer None garbage_count) \<and>
   q_head (Queue d garbage_val garbage_count) = NodePointer (Some d) 0 \<and>
   q_tail (Queue d garbage_val garbage_count) = NodePointer (Some d) 0"
  by (simp add: Queue_eq NodePointer_def)

text \<open>
  C6: for every element type, every address of the dummy node and every content of its
  uninitialised fields, the first \<open>dequeue\<close> on a freshly constructed queue returns
  false and changes nothing. The heap holds the dummy node only, so a dereference of any
  other node would have been the error \<open>DanglingPointer\<close>.
\<close>

theorem first_dequeue_reports_empty:
  "dequeue result (alone (Queue d garbage_val garbage_count)) =
     Some (Inr (False, result, alone (Queue d garbage_val garbage_count)))"
  by (rule dequeue_empty[where d = d]) (simp_all add: alone_def repr_Queue)




text \<open>
  C8: the assignment of a raw pointer to a tagged pointer writes the reference field
  only; the generation field keeps the value it had.
\<close>

theorem assign_ptr_sets_reference_only:
  "ptr (assign_ptr tp p) = p \<and> count (assign_ptr tp p) = count tp"
  by (simp add: assign_ptr_def)

text \<open>
  C9: once a \<open>dequeue\<close> of a thread running alone has reported the queue empty, the
  state is the one before that call, and any number of further calls all return false
  and leave the state (\<open>_head\<close>, \<open>_tail\<close>, the nodes) as it was.
\<close>

theorem drained_queue_stays_empty:
  assumes "others w = []" and "dequeue r w = Some (Inr (False, r', w'))"
  shows "w' = w \<and> dequeue_times n r2 w' = Some (Inr (replicate n False, r2, w'))"
proof -
  have same: "w' = w" and again: "dequeue r3 w = Some (Inr (False, r3, w))" for r3
    using dequeue_false_alone[OF assms, of r3] by simp_all
  have "dequeue_times n r2 w = Some (Inr (replicate n False, r2, w))"
    by (rule dequeue_times_empty) (rule again)+
  with same show ?thesis by simp
qed

theorem drained_queue_stays_empty_witness:
  "\<exists>w. dequeue 7 (alone one_pending) = Some (Inr (True, 42, w)) \<and> others w = [] \<and>
     dequeue 42 w = Some (Inr (False, 42, w)) \<and>
     dequeue_times 3 9 w = Some (Inr ([False, False, False], 9, w))"
proof -
  have "settled (alone one_pending) [0, 1] [42]"
    using repr_one_pending pending_one_pending
    by (simp add: settled_def alone_def) (simp add: one_pending_def NodePointer_def)
  from dequeue_settled_nonempty[OF this, of 7]
  obtain w where w: "dequeue 7 (alone one_pending) = Some (Inr (True, 42, w))" "settled w [1] []"
    by blast
  have o: "others w = []" using w(2) by (simp add: settled_def)
  have d: "dequeue 42 w = Some (Inr (False, 42, w))"
    using w(2) by (rule dequeue_settled_empty)
  show ?thesis
    using w(1) o d drained_queue_stays_empty[OF o d, of 3 9]
    by (auto simp add: numeral_3_eq_3)
qed

text \<open>
  C10, amended: when \<open>dequeue\<close> runs without interference from other threads and
  returns false, the caller's variable \<open>result\<close> holds the value it held before the
  call.
\<close>

theorem dequeue_false_keeps_result:
  assumes "others w = []" and "dequeue result w = Some (Inr (False, result', w'))"
  shows "result' = result"
  using dequeue_false_alone[OF assms] by simp

theorem dequeue_false_keeps_result_witness:
  "others (alone (Queue 0 (0::int) 0)) = [] \<and>
   dequeue 5 (alone (Queue 0 (0::int) 0)) = Some (Inr (False, 5, alone (Queue 0 0 0)))"
proof -
  have o: "others (alone (Queue 0 (0::int) 0)) = []" by (simp add: alone_def)
  have "\<exists>r' w'. dequeue 5 (alone (Queue 0 (0::int) 0)) = Some (Inr (False, r', w'))"
    by (simp add: dequeue_empty[where d = 0] alone_def repr_Queue)
  then obtain r' w' where d: "dequeue 5 (alone (Queue 0 (0::int) 0)) = Some (Inr (False, r', w'))"
    by blast
  have "r' = 5" using dequeue_false_keeps_result[OF o d] .
  moreover have "w' = alone (Queue 0 0 0)" using dequeue_false_alone[OF o d] by simp
  ultimately show ?thesis using o d by simp
qed

text \<open>
  C10 as stated fails under concurrency. The queue holds one value, 42, and the caller's
  \<open>result\<close> is 7. The calling thread reads 42 into \<open>result\<close> (line 157); before
  its compare-and-swap on \<open>_head\<close> (line 160) another thread completes a
  \<open>dequeue\<close>; the compare-and-swap fails, the next turn of the loop finds the queue
  empty, and the call returns false with \<open>result\<close> = 42.
\<close>

theorem dequeue_false_result_counterexample:
  "reachable (mem racing) \<and>
   map_option (map_sum id (map_prod id fst)) (dequeue 7 racing) = Some (Inr (False, 42))"
proof -
  have "mem racing = one_pending" by (simp add: racing_def)
  then have r: "reachable (mem racing)" using reachable_one_pending by simp
  have "map_option (map_sum id (map_prod id fst)) (dequeue 7 racing) = Some (Inr (False, 42))"
    by code_simp
  with r show ?thesis by simp
qed

end
